theory Spec2Isabelle
  imports Complex_Main "HOL-Library.Word" "HOL-Library.Signed_Division"
begin

section \<open>Data model of main.go\<close>

text \<open>
  \<^verbatim>\<open>time.Duration\<close> is an \<^verbatim>\<open>int64\<close> count of nanoseconds. Go's \<^verbatim>\<open>int\<close> is taken at
  its 64-bit width (the width on every 64-bit platform), so that \<^verbatim>\<open>time.Duration(splits+1)\<close>
  is the wrapped sum itself. Both are 64-bit words read as two's complement.
\<close>

type_synonym Duration = "64 word"
type_synonym goInt = "64 word"

text \<open>
  The ways a run can stop without returning. The first three are what the Go runtime does:
  the panic of an integer division by zero, the panic of \<^verbatim>\<open>make(chan T, n)\<close> with a negative
  size, and a main goroutine that blocks for ever. The last two are the conditions named by
  the specification's error taxonomy.
\<close>

datatype failure =
    IntegerDivideByZero
  | MakechanSizeOutOfRange
  | BlockedForever
  | InsufficientData
  | InvalidConfig

text \<open>
  The \<^verbatim>\<open>strings.Builder\<close> a request writes to is a list of lines. Each line keeps which of the
  four \<^verbatim>\<open>Sprintf\<close> formats produced it, the request's name and the duration the phase was
  asked to last. The wall-clock readings printed in a line come from \<^verbatim>\<open>time.Now()\<close> and
  are not part of the model.
\<close>

datatype lineKind = CpuPlus | CpuMinus | NetPlus | NetMinus

datatype logLine = LogLine lineKind string Duration

type_synonym Builder = "logLine list"

section \<open>Integer division\<close>

text \<open>
  Go's \<^verbatim>\<open>/\<close> on signed integers truncates towards zero, wraps on the one overflowing
  quotient (the least integer by \<open>-1\<close>) and panics on a zero divisor.
\<close>

definition goQuo :: "64 word \<Rightarrow> 64 word \<Rightarrow> 64 word" where
  "goQuo a b = word_of_int (sint a sdiv sint b)"

definition goDiv :: "64 word \<Rightarrow> 64 word \<Rightarrow> failure + 64 word" where
  "goDiv a b = (if b = 0 then Inl IntegerDivideByZero else Inr (goQuo a b))"

section \<open>The simulated request\<close>

text \<open>
  The busy loop of \<^verbatim>\<open>doCpuWork\<close> ends once the clock has advanced by \<open>workTime\<close>, at
  once when \<open>workTime\<close> is not positive, and \<^verbatim>\<open>time.Sleep\<close> returns after \<open>networkTime\<close>.
  The clock is taken to advance; what a phase leaves behind is its two lines, both written
  after the busy loop for a CPU phase, one before and one after the sleep for a network phase.
\<close>

definition doCpuWork :: "Duration \<Rightarrow> string \<Rightarrow> Builder \<Rightarrow> Builder" where
  "doCpuWork workTime name sb =
     sb @ [LogLine CpuPlus name workTime, LogLine CpuMinus name workTime]"

definition doNetworkWork :: "Duration \<Rightarrow> string \<Rightarrow> Builder \<Rightarrow> Builder" where
  "doNetworkWork networkTime name sb =
     sb @ [LogLine NetPlus name networkTime, LogLine NetMinus name networkTime]"

text \<open>The \<^verbatim>\<open>for i := 0; i < splits; i++\<close> loop of \<^verbatim>\<open>doWork\<close>, from counter \<open>i\<close> on.\<close>

function doWorkLoop ::
  "Duration \<Rightarrow> Duration \<Rightarrow> goInt \<Rightarrow> string \<Rightarrow> goInt \<Rightarrow> Builder \<Rightarrow> failure + Builder" where
  "doWorkLoop workTime networkTime splits name i sb =
     (if i <s splits then
        (case goDiv networkTime splits of
           Inl e \<Rightarrow> Inl e
         | Inr nd \<Rightarrow>
             (case goDiv workTime (splits + 1) of
                Inl e \<Rightarrow> Inl e
              | Inr cd \<Rightarrow>
                  doWorkLoop workTime networkTime splits name (i + 1)
                    (doCpuWork cd name (doNetworkWork nd name sb))))
      else Inr sb)"
  by pat_completeness auto

lemma sint_succ_below:
  fixes i :: "64 word"
  assumes "i <s n"
  shows "sint (i + 1) = sint i + 1"
proof -
  have "sint i < sint n" using assms by (simp add: word_sless_alt)
  moreover have "sint n < 2 ^ 63" using sint_lt [of n] by simp
  moreover have "- (2 ^ 63) \<le> sint i" using sint_ge [of i] by simp
  ultimately have "signed_take_bit 63 (sint i + 1) = sint i + 1"
    by (intro signed_take_bit_int_eq_self) simp_all
  then show ?thesis by (simp add: sint_word_ariths)
qed

termination doWorkLoop
proof (relation "measure (\<lambda>(w, n, splits, name, i, sb). nat (sint splits - sint i))")
  show "wf (measure (\<lambda>(w, n, splits, name, i, sb). nat (sint splits - sint i)))" by simp
next
  fix workTime networkTime :: Duration and splits i :: goInt and name :: string
    and sb :: Builder and nd cd :: Duration
  assume "i <s splits"
  then show "((workTime, networkTime, splits, name, i + 1,
               doCpuWork cd name (doNetworkWork nd name sb)),
              (workTime, networkTime, splits, name, i, sb))
             \<in> measure (\<lambda>(w, n, splits, name, i, sb). nat (sint splits - sint i))"
    using sint_succ_below [of i splits] by (simp add: word_sless_alt)
qed

declare doWorkLoop.simps [simp del]

definition doWork ::
  "Duration \<Rightarrow> Duration \<Rightarrow> goInt \<Rightarrow> string \<Rightarrow> Builder \<Rightarrow> failure + Builder" where
  "doWork workTime networkTime splits name sb =
     (case goDiv workTime (splits + 1) of
        Inl e \<Rightarrow> Inl e
      | Inr cd \<Rightarrow> doWorkLoop workTime networkTime splits name 0 (doCpuWork cd name sb))"

text \<open>
  What \<^verbatim>\<open>doWork\<close> returns in Go is \<^verbatim>\<open>time.Since(start)\<close>, a wall-clock measurement;
  the model returns the builder it wrote, and the measurement is supplied by the run's
  \<open>Runtime\<close> below.
\<close>

section \<open>Results\<close>

record WorkResult =
  timeTaken :: Duration
  outputStr :: Builder

text \<open>
  \<^verbatim>\<open>float64\<close> is idealised as \<open>real\<close>: the arithmetic is exact. A division by \<^verbatim>\<open>0.0\<close>
  gives an infinity or a NaN in Go and never panics; in HOL it gives 0, so the value of a
  metric whose divisor is zero is not meaningful here.
\<close>

record BenchmarkResult =
  WorkTime :: Duration
  NetworkTime :: Duration
  Iterations :: int
  NumCoroutines :: int
  ThroughputRps :: real
  Speedup :: real
  CpuUtilization :: real
  ResponseTimesMs :: "real list"
  LongestRequest :: Builder

text \<open>
  \<^verbatim>\<open>stats.Percentile\<close> belongs to an imported package and is a parameter here; its Go
  signature is \<^verbatim>\<open>(Float64Data, float64) (float64, error)\<close>, with \<open>None\<close> for a \<^verbatim>\<open>nil\<close>
  error. The accessor keeps the first component and drops the second.
\<close>

definition ResponseTimesPercentile ::
  "(real list \<Rightarrow> real \<Rightarrow> real \<times> failure option) \<Rightarrow> BenchmarkResult \<Rightarrow> real \<Rightarrow> real" where
  "ResponseTimesPercentile Percentile b pct =
     (case Percentile (ResponseTimesMs b) pct of (val, _) \<Rightarrow> val)"

text \<open>
  Modelled from the spec: a percentile routine that meets the specification's
  ``Empty-input is an error condition (\<^verbatim>\<open>InsufficientData\<close>)''. It stands for the imported
  \<^verbatim>\<open>stats.Percentile\<close> only where a concrete routine is needed, and only its answer on the
  empty sequence is used.
\<close>

fun emptyRejectingPercentile :: "real list \<Rightarrow> real \<Rightarrow> real \<times> failure option" where
  "emptyRejectingPercentile [] pct = (0, Some InsufficientData)"
| "emptyRejectingPercentile (v # vs) pct = (v, None)"

section \<open>The benchmark run\<close>






definition milliseconds :: "Duration \<Rightarrow> real" where
  "milliseconds d = real_of_int (sint d) / 1000000"






text \<open>
  The \<^verbatim>\<open>for result := range c\<close> loop of lines 107 to 115 over what the channel delivers.
  \<open>isClosed\<close> records that \<^verbatim>\<open>close(c)\<close> has run: a closed channel ends the loop once it is
  drained, an open one makes the loop wait, for ever when nothing more is sent.
\<close>

definition longer :: "WorkResult \<Rightarrow> WorkResult \<Rightarrow> WorkResult" where
  "longer longestRequest result =
     (if timeTaken longestRequest <s timeTaken result then result else longestRequest)"

fun rangeLoop ::
  "int \<Rightarrow> bool \<Rightarrow> WorkResult list \<Rightarrow> real list \<Rightarrow> WorkResult
     \<Rightarrow> (real list \<times> WorkResult) option" where
  "rangeLoop iterations isClosed [] responseTimesMs longestRequest =
     (if isClosed then Some (responseTimesMs, longestRequest) else None)"
| "rangeLoop iterations isClosed (result # c) responseTimesMs longestRequest =
     rangeLoop iterations
       (isClosed \<or> int (length (responseTimesMs @ [milliseconds (timeTaken result)])) = iterations)
       c
       (responseTimesMs @ [milliseconds (timeTaken result)])
       (longer longestRequest result)"



section \<open>The concurrent phase as a transition system\<close>

text \<open>
  Modelled from the spec: the semaphore of \<^verbatim>\<open>golang.org/x/sync/semaphore\<close> is an imported
  package. Section 4.2 of the specification gives its contract: \<^verbatim>\<open>acquire\<close> waits until
  fewer than the limit of permits are held, \<^verbatim>\<open>release\<close> returns a held permit and never
  waits. \<open>held\<close> counts the permits held, \<open>capacity\<close> is the limit.
\<close>

record Weighted =
  capacity :: int
  held :: int

definition NewWeighted :: "int \<Rightarrow> Weighted" where
  "NewWeighted n = \<lparr>capacity = n, held = 0\<rparr>"

definition canAcquire :: "Weighted \<Rightarrow> int \<Rightarrow> bool" where
  "canAcquire sem n = (n \<le> capacity sem - held sem)"

definition Acquire :: "Weighted \<Rightarrow> int \<Rightarrow> Weighted" where
  "Acquire sem n = sem\<lparr>held := held sem + n\<rparr>"

definition Release :: "Weighted \<Rightarrow> int \<Rightarrow> Weighted" where
  "Release sem n = sem\<lparr>held := held sem - n\<rparr>"

text \<open>
  The state of lines 86 to 103: the loop counter \<open>x\<close> of the main goroutine, the semaphore,
  the requests whose goroutine is inside \<^verbatim>\<open>doWork\<close>, those that have sent their result
  and not yet released their permit, and the requests in the order of their sends.
\<close>

record Phase =
  counter :: int
  sem :: Weighted
  working :: "int set"
  sending :: "int set"
  sent :: "int list"

definition launchState :: "int \<Rightarrow> Phase" where
  "launchState numGreenThreads =
     \<lparr>counter = 0, sem = NewWeighted numGreenThreads, working = {}, sending = {}, sent = []\<rparr>"

text \<open>
  One atomic step of some goroutine. \<open>Launch\<close> is one round of the loop of line 89: the
  main goroutine gets a permit and starts request \<open>x\<close>. \<open>Send\<close> is line 97 and \<open>Finish\<close>
  is line 101 of a started request.
\<close>

inductive step :: "int \<Rightarrow> Phase \<Rightarrow> Phase \<Rightarrow> bool" for iterations :: int where
  Launch:
    "counter s < iterations \<Longrightarrow> canAcquire (sem s) 1 \<Longrightarrow>
     step iterations s
       (s\<lparr>counter := counter s + 1, sem := Acquire (sem s) 1,
          working := insert (counter s) (working s)\<rparr>)"
| Send:
    "g \<in> working s \<Longrightarrow>
     step iterations s
       (s\<lparr>working := working s - {g}, sending := insert g (sending s), sent := sent s @ [g]\<rparr>)"
| Finish:
    "g \<in> sending s \<Longrightarrow>
     step iterations s (s\<lparr>sem := Release (sem s) 1, sending := sending s - {g}\<rparr>)"

inductive reachable :: "int \<Rightarrow> int \<Rightarrow> Phase \<Rightarrow> bool"
  for numGreenThreads :: int and iterations :: int where
  Start: "reachable numGreenThreads iterations (launchState numGreenThreads)"
| Next: "reachable numGreenThreads iterations s \<Longrightarrow> step iterations s s' \<Longrightarrow>
         reachable numGreenThreads iterations s'"

text \<open>The requests that hold a permit: acquired and not yet released.\<close>

definition outstanding :: "Phase \<Rightarrow> int set" where
  "outstanding s = working s \<union> sending s"

section \<open>Reading a trace\<close>

text \<open>
  The phases a trace records, from its \<open>+\<close> lines, and the time the phases of each kind were
  asked to last in total.
\<close>

datatype phase = CpuSlice Duration | NetSlice Duration

fun phasesOf :: "Builder \<Rightarrow> phase list" where
  "phasesOf [] = []"
| "phasesOf (LogLine CpuPlus name d # ls) = CpuSlice d # phasesOf ls"
| "phasesOf (LogLine NetPlus name d # ls) = NetSlice d # phasesOf ls"
| "phasesOf (LogLine k name d # ls) = phasesOf ls"

fun commandedCpu :: "phase list \<Rightarrow> int" where
  "commandedCpu [] = 0"
| "commandedCpu (CpuSlice d # ps) = sint d + commandedCpu ps"
| "commandedCpu (NetSlice d # ps) = commandedCpu ps"

fun commandedNet :: "phase list \<Rightarrow> int" where
  "commandedNet [] = 0"
| "commandedNet (CpuSlice d # ps) = commandedNet ps"
| "commandedNet (NetSlice d # ps) = sint d + commandedNet ps"

definition cpuLines :: "string \<Rightarrow> Duration \<Rightarrow> Builder" where
  "cpuLines name d = [LogLine CpuPlus name d, LogLine CpuMinus name d]"

definition netLines :: "string \<Rightarrow> Duration \<Rightarrow> Builder" where
  "netLines name d = [LogLine NetPlus name d, LogLine NetMinus name d]"

section \<open>Sample runs\<close>




text \<open>A result with no latencies, as a caller of the accessor may build it.\<close>

definition noLatencies :: BenchmarkResult where
  "noLatencies =
     \<lparr>WorkTime = 5000000, NetworkTime = 55000000, Iterations = 0, NumCoroutines = 1,
      ThroughputRps = 0, Speedup = 0, CpuUtilization = 0,
      ResponseTimesMs = [], LongestRequest = []\<rparr>"

text \<open>The concurrent phase with limit 1 after its first launch.\<close>

definition oneLaunched :: Phase where
  "oneLaunched = \<lparr>counter = 1, sem = \<lparr>capacity = 1, held = 1\<rparr>, working = {0}, sending = {},
                  sent = []\<rparr>"

section \<open>Lemmas about the simulated request\<close>

lemma doCpuWork_lines: "doCpuWork d name sb = sb @ cpuLines name d"
  by (simp add: doCpuWork_def cpuLines_def)

lemma doNetworkWork_lines: "doNetworkWork d name sb = sb @ netLines name d"
  by (simp add: doNetworkWork_def netLines_def)

lemma word64_succ_nonzero:
  fixes s :: "64 word"
  assumes "0 \<le> sint s"
  shows "s + 1 \<noteq> 0"
proof
  assume "s + 1 = 0"
  then have "s = - 1" by (simp add: eq_neg_iff_add_eq_0)
  with assms show False by simp
qed

lemma doWorkLoop_unfold:
  assumes "0 \<le> sint i"
  shows "doWorkLoop w n s name i sb =
     Inr (sb @ concat (replicate (nat (sint s - sint i))
        (netLines name (goQuo n s) @ cpuLines name (goQuo w (s + 1)))))"
  using assms
proof (induction w n s name i sb rule: doWorkLoop.induct)
  case (1 w n s name i sb)
  show ?case
  proof (cases "i <s s")
    case False
    then show ?thesis by (simp add: doWorkLoop.simps [of w n s name i sb] word_sless_alt)
  next
    case True
    then have lt: "sint i < sint s" by (simp add: word_sless_alt)
    with "1.prems" have pos: "0 < sint s" by simp
    then have s0: "s \<noteq> 0" by auto
    have s1: "s + 1 \<noteq> 0" using pos by (intro word64_succ_nonzero) simp
    have nxt: "sint (i + 1) = sint i + 1" using True by (rule sint_succ_below)
    have k: "nat (sint s - sint i) = Suc (nat (sint s - sint (i + 1)))"
      using lt nxt by simp
    have ih: "doWorkLoop w n s name (i + 1)
         (doCpuWork (goQuo w (s + 1)) name (doNetworkWork (goQuo n s) name sb)) =
       Inr (doCpuWork (goQuo w (s + 1)) name (doNetworkWork (goQuo n s) name sb) @
         concat (replicate (nat (sint s - sint (i + 1)))
           (netLines name (goQuo n s) @ cpuLines name (goQuo w (s + 1)))))"
      using "1.IH" [OF True, of "goQuo n s" "goQuo w (s + 1)"] "1.prems" nxt s0 s1
      by (simp add: goDiv_def)
    show ?thesis
      using True s0 s1 ih
      by (simp add: doWorkLoop.simps [of w n s name i sb] goDiv_def k
          doCpuWork_lines doNetworkWork_lines)
  qed
qed


lemma doWork_trace:
  assumes "0 \<le> sint s"
  shows "doWork w n s name sb =
     Inr (sb @ cpuLines name (goQuo w (s + 1)) @
          concat (replicate (nat (sint s))
            (netLines name (goQuo n s) @ cpuLines name (goQuo w (s + 1)))))"
  using word64_succ_nonzero [OF assms]
  by (simp add: doWork_def goDiv_def doWorkLoop_unfold doCpuWork_lines)



lemma phasesOf_append: "phasesOf (xs @ ys) = phasesOf xs @ phasesOf ys"
  by (induction xs rule: phasesOf.induct) simp_all

lemma phasesOf_cpuLines: "phasesOf (cpuLines name d) = [CpuSlice d]"
  by (simp add: cpuLines_def)

lemma phasesOf_netLines: "phasesOf (netLines name d) = [NetSlice d]"
  by (simp add: netLines_def)

lemma phasesOf_rounds:
  "phasesOf (concat (replicate k (netLines name nd @ cpuLines name cd))) =
     concat (replicate k [NetSlice nd, CpuSlice cd])"
  by (induction k) (simp_all add: phasesOf_append phasesOf_cpuLines phasesOf_netLines)

lemma phasesOf_doWork_trace:
  "phasesOf (cpuLines name cd @ concat (replicate k (netLines name nd @ cpuLines name cd))) =
     CpuSlice cd # concat (replicate k [NetSlice nd, CpuSlice cd])"
  by (simp add: phasesOf_append phasesOf_cpuLines phasesOf_rounds)

lemma length_rounds: "length (concat (replicate k [a, b])) = 2 * k"
  by (induction k) simp_all

lemma commandedCpu_rounds:
  "commandedCpu (concat (replicate k [NetSlice nd, CpuSlice cd])) = int k * sint cd"
  by (induction k) (simp_all add: algebra_simps)

lemma commandedNet_rounds:
  "commandedNet (concat (replicate k [NetSlice nd, CpuSlice cd])) = int k * sint nd"
  by (induction k) (simp_all add: algebra_simps)

text \<open>Truncated and floored division agree on non-negative operands.\<close>

lemma sdiv_nonneg:
  fixes a b :: int
  assumes "0 \<le> a" "0 \<le> b"
  shows "a sdiv b = a div b"
  using assms by (cases "a = 0"; cases "b = 0") (simp_all add: signed_divide_int_def)

lemma sint_word_of_int_64:
  fixes k :: int
  assumes "- (2 ^ 63) \<le> k" "k < 2 ^ 63"
  shows "sint (word_of_int k :: 64 word) = k"
  using assms by (simp add: sint_sbintrunc' signed_take_bit_int_eq_self)

lemma sint_goQuo_pos:
  fixes a b :: "64 word"
  assumes "1 \<le> sint b"
  shows "sint (goQuo a b) = sint a sdiv sint b"
proof -
  have lo: "- (2 ^ 63) \<le> sint a" using sint_ge [of a] by simp
  have hi: "sint a < 2 ^ 63" using sint_lt [of a] by simp
  have q: "\<bar>sint a\<bar> div sint b \<le> \<bar>sint a\<bar>"
    using zdiv_mono2 [of "\<bar>sint a\<bar>" 1 "sint b"] assms by simp
  have q0: "0 \<le> \<bar>sint a\<bar> div sint b" using assms by (simp add: pos_imp_zdiv_nonneg_iff)
  have sb: "sgn (sint b) = 1" "\<bar>sint b\<bar> = sint b" using assms by simp_all
  have "- (2 ^ 63) \<le> sint a sdiv sint b \<and> sint a sdiv sint b < 2 ^ 63"
  proof (cases "0 \<le> sint a")
    case True
    then show ?thesis using q q0 hi sb
      by (cases "sint a = 0") (simp_all add: signed_divide_int_def)
  next
    case False
    then have "sgn (sint a) = - 1" by simp
    then show ?thesis using q q0 lo sb False
      by (simp add: signed_divide_int_def)
  qed
  then show ?thesis by (simp add: goQuo_def sint_word_of_int_64)
qed

lemma sint_succ_64:
  fixes s :: "64 word"
  assumes "sint s < 2 ^ 63 - 1"
  shows "sint (s + 1) = sint s + 1"
proof -
  have "- (2 ^ 63) \<le> sint s" using sint_ge [of s] by simp
  with assms have "signed_take_bit 63 (sint s + 1) = sint s + 1"
    by (intro signed_take_bit_int_eq_self) simp_all
  then show ?thesis by (simp add: sint_word_ariths)
qed

lemma sint_succ_wraps:
  fixes s :: "64 word"
  assumes "sint s = 2 ^ 63 - 1"
  shows "sint (s + 1) = - (2 ^ 63)"
proof -
  have "sint (s + 1) = signed_take_bit 63 (sint s + 1)" by (simp add: sint_word_ariths)
  also have "\<dots> = signed_take_bit 63 (2 ^ 63 :: int)" using assms by simp
  also have "\<dots> = - (2 ^ 63)" by (simp add: signed_take_bit_eq_take_bit_shift take_bit_eq_mod)
  finally show ?thesis .
qed

lemma sint_cpu_goQuo:
  fixes w s :: "64 word"
  assumes "0 \<le> sint w" "0 \<le> sint s"
  shows "sint (goQuo w (s + 1)) = sint w div (sint s + 1)"
proof (cases "sint s < 2 ^ 63 - 1")
  case True
  then have e: "sint (s + 1) = sint s + 1" by (rule sint_succ_64)
  then have "sint (goQuo w (s + 1)) = sint w sdiv (sint s + 1)"
    using sint_goQuo_pos [of "s + 1" w] assms by simp
  then show ?thesis using assms by (simp add: sdiv_nonneg)
next
  case False
  moreover have "sint s < 2 ^ 63" using sint_lt [of s] by simp
  ultimately have top: "sint s = 2 ^ 63 - 1" by simp
  have small: "sint w < 2 ^ 63" using sint_lt [of w] by simp
  have z: "sint w div 2 ^ 63 = 0" using assms small by (simp add: div_pos_pos_trivial)
  have "sint w sdiv sint (s + 1) = 0"
    using assms z by (simp add: sint_succ_wraps [OF top] signed_divide_int_def)
  then have "sint (goQuo w (s + 1)) = 0" by (simp add: goQuo_def)
  then show ?thesis using top z by simp
qed

lemma sint_net_goQuo:
  fixes n s :: "64 word"
  assumes "0 \<le> sint n" "1 \<le> sint s"
  shows "sint (goQuo n s) = sint n div sint s"
  using assms by (simp add: sint_goQuo_pos sdiv_nonneg)

lemma floor_product_less:
  fixes a b :: int
  assumes "0 < b" "\<not> b dvd a"
  shows "b * (a div b) < a"
proof -
  have "a mod b \<noteq> 0" using assms by (simp add: dvd_eq_mod_eq_0)
  moreover have "0 \<le> a mod b" using assms by simp
  ultimately have "0 < a mod b" by simp
  moreover have "a = b * (a div b) + a mod b" by simp
  ultimately show ?thesis by linarith
qed

section \<open>Lemmas about the run\<close>












lemma rangeLoop_empty: "rangeLoop it False [] [] lr = None"
  by simp








section \<open>Lemmas about the concurrent phase\<close>

lemma reachable_permits:
  assumes "0 \<le> L" and "reachable L it s"
  shows "capacity (sem s) = L \<and> finite (working s) \<and> finite (sending s)
    \<and> working s \<inter> sending s = {}
    \<and> held (sem s) = int (card (working s \<union> sending s))
    \<and> held (sem s) \<le> L
    \<and> (\<forall>g\<in>working s \<union> sending s. g < counter s)"
  using assms(2)
proof (induction rule: reachable.induct)
  case Start
  show ?case using assms(1) by (simp add: launchState_def NewWeighted_def)
next
  case (Next s s')
  from Next.IH have cap: "capacity (sem s) = L" and fin: "finite (working s)" "finite (sending s)"
    and dis: "working s \<inter> sending s = {}"
    and cnt: "held (sem s) = int (card (working s \<union> sending s))"
    and le: "held (sem s) \<le> L"
    and below: "\<forall>g\<in>working s \<union> sending s. g < counter s" by blast+
  from Next.hyps(2) show ?case
  proof (cases rule: step.cases)
    case Launch
    have fresh: "counter s \<notin> working s \<union> sending s" using below by auto
    then have card': "card (insert (counter s) (working s) \<union> sending s) =
        Suc (card (working s \<union> sending s))"
      using fin by simp
    have le': "held (sem s) + 1 \<le> L" using Launch(3) cap by (simp add: canAcquire_def)
    have dis': "insert (counter s) (working s) \<inter> sending s = {}" using fresh dis by auto
    have below': "\<forall>g\<in>insert (counter s) (working s) \<union> sending s. g < counter s + 1"
    proof
      fix g
      assume "g \<in> insert (counter s) (working s) \<union> sending s"
      then have "g = counter s \<or> g \<in> working s \<union> sending s" by auto
      then show "g < counter s + 1"
      proof
        assume "g = counter s"
        then show ?thesis by simp
      next
        assume "g \<in> working s \<union> sending s"
        with below have "g < counter s" by (rule bspec)
        then show ?thesis by simp
      qed
    qed
    show ?thesis
      using cap fin dis' cnt card' le' below' by (simp add: Launch(1) Acquire_def)
  next
    case (Send g)
    have "g \<notin> sending s" using Send(2) dis by auto
    moreover have "(working s - {g}) \<union> insert g (sending s) = working s \<union> sending s"
      using Send(2) by auto
    ultimately show ?thesis
      using Send(1) cap fin dis cnt le below by auto
  next
    case (Finish g)
    have gw: "g \<notin> working s" using Finish(2) dis by auto
    then have u: "working s \<union> (sending s - {g}) = (working s \<union> sending s) - {g}" by auto
    have "g \<in> working s \<union> sending s" using Finish(2) by simp
    then have "card ((working s \<union> sending s) - {g}) = card (working s \<union> sending s) - 1"
      "0 < card (working s \<union> sending s)"
      using fin by (auto simp: card_gt_0_iff)
    then have "int (card (working s \<union> (sending s - {g}))) = held (sem s) - 1"
      using u cnt by simp
    then show ?thesis
      using Finish(1) cap fin dis le below by (auto simp: Release_def)
  qed
qed

text \<open>
  The transition system agrees with the summary in \<open>runBenchmark\<close>. First, every request
  sends at most once and only after its launch.
\<close>

lemma reachable_sends:
  assumes "reachable L it s"
  shows "distinct (sent s) \<and> set (sent s) \<inter> working s = {} \<and> sending s \<subseteq> set (sent s)
    \<and> finite (working s)
    \<and> (\<forall>g\<in>set (sent s) \<union> working s. 0 \<le> g \<and> g < counter s)
    \<and> counter s = int (card (working s)) + int (length (sent s))
    \<and> (counter s \<le> it \<or> counter s = 0)"
  using assms
proof (induction rule: reachable.induct)
  case Start
  show ?case by (simp add: launchState_def)
next
  case (Next s s')
  from Next.IH have d: "distinct (sent s)" and sw: "set (sent s) \<inter> working s = {}"
    and ss: "sending s \<subseteq> set (sent s)" and fin: "finite (working s)"
    and below: "\<forall>g\<in>set (sent s) \<union> working s. 0 \<le> g \<and> g < counter s"
    and cnt: "counter s = int (card (working s)) + int (length (sent s))"
    and bound: "counter s \<le> it \<or> counter s = 0" by blast+
  from Next.hyps(2) show ?case
  proof (cases rule: step.cases)
    case Launch
    have fresh: "counter s \<notin> set (sent s) \<union> working s" using below by auto
    have nonneg: "0 \<le> counter s" using cnt by simp
    have sw': "set (sent s) \<inter> insert (counter s) (working s) = {}" using fresh sw by auto
    have below': "\<forall>g\<in>set (sent s) \<union> insert (counter s) (working s). 0 \<le> g \<and> g < counter s + 1"
    proof
      fix g
      assume "g \<in> set (sent s) \<union> insert (counter s) (working s)"
      then have "g = counter s \<or> g \<in> set (sent s) \<union> working s" by auto
      then show "0 \<le> g \<and> g < counter s + 1"
      proof
        assume "g = counter s"
        then show ?thesis using nonneg by simp
      next
        assume "g \<in> set (sent s) \<union> working s"
        with below have "0 \<le> g \<and> g < counter s" by (rule bspec)
        then show ?thesis by simp
      qed
    qed
    have card': "card (insert (counter s) (working s)) = Suc (card (working s))"
      using fresh fin by simp
    have bound': "counter s + 1 \<le> it" using Launch(2) by simp
    show ?thesis
      using d sw' ss fin below' cnt card' bound' by (simp add: Launch(1))
  next
    case (Send g)
    have "g \<notin> set (sent s)" using Send(2) sw by auto
    moreover have "card (working s - {g}) = card (working s) - 1" "0 < card (working s)"
      using Send(2) fin by (auto simp: card_gt_0_iff)
    ultimately show ?thesis
      using Send(1,2) d sw ss fin below cnt bound by auto
  next
    case (Finish g)
    then show ?thesis
      using d sw ss fin below cnt bound by auto
  qed
qed

text \<open>
  Once as many results are sent as there are iterations, they are the results of the requests
  \<open>0, \<dots>, iterations - 1\<close>, each once: what \<open>completionOrder\<close> lists.
\<close>

lemma all_sent_is_every_request:
  assumes "reachable L it s" and "int (length (sent s)) = it"
  shows "distinct (sent s) \<and> set (sent s) = {0..<it}"
proof -
  from reachable_sends [OF assms(1)] have d: "distinct (sent s)"
    and below: "\<forall>g\<in>set (sent s) \<union> working s. 0 \<le> g \<and> g < counter s"
    and bound: "counter s \<le> it \<or> counter s = 0" by blast+
  have sub: "set (sent s) \<subseteq> {0..<it}"
  proof
    fix g
    assume g: "g \<in> set (sent s)"
    then have "g \<in> set (sent s) \<union> working s" by simp
    with below have "0 \<le> g \<and> g < counter s" by (rule bspec)
    then show "g \<in> {0..<it}" using bound by auto
  qed
  have "card (set (sent s)) = length (sent s)" using d by (rule distinct_card)
  also have "\<dots> = nat it" using assms(2) by auto
  also have "\<dots> = card {0..<it}" by simp
  finally have "card (set (sent s)) = card {0..<it}" .
  with sub have "set (sent s) = {0..<it}" by (intro card_subset_eq) simp_all
  with d show ?thesis by simp
qed

text \<open>
  While results are missing and the limit is at least 1 some goroutine can move, so the
  channel does receive them all; with a limit below 1 nothing ever moves.
\<close>

lemma reachable_progress:
  assumes "1 \<le> L" and "reachable L it s" and "int (length (sent s)) < it"
  shows "\<exists>s'. step it s s'"
proof (cases "working s = {}")
  case False
  then obtain g where "g \<in> working s" by blast
  then show ?thesis by (blast intro: step.Send)
next
  case True
  show ?thesis
  proof (cases "sending s = {}")
    case False
    then obtain g where "g \<in> sending s" by blast
    then show ?thesis by (blast intro: step.Finish)
  next
    case sempty: True
    have "0 \<le> L" using assms(1) by simp
    from reachable_permits [OF this assms(2)] True sempty
    have "held (sem s) = 0" "capacity (sem s) = L" by simp_all
    then have can: "canAcquire (sem s) 1" using assms(1) by (simp add: canAcquire_def)
    from reachable_sends [OF assms(2)] True have "counter s = int (length (sent s))" by simp
    then have "counter s < it" using assms(3) by simp
    then show ?thesis using can by (blast intro: step.Launch)
  qed
qed

lemma no_permit_no_step:
  assumes "L < 1"
  shows "\<not> step it (launchState L) s'"
proof
  assume "step it (launchState L) s'"
  then show False
    using assms by (cases rule: step.cases) (simp_all add: launchState_def NewWeighted_def canAcquire_def)
qed

lemma oneLaunched_reachable: "reachable 1 2 oneLaunched"
proof -
  have "step 2 (launchState 1)
     ((launchState 1)\<lparr>counter := counter (launchState 1) + 1,
        sem := Acquire (sem (launchState 1)) 1,
        working := insert (counter (launchState 1)) (working (launchState 1))\<rparr>)"
    by (rule step.Launch) (simp_all add: launchState_def NewWeighted_def canAcquire_def)
  then have "step 2 (launchState 1) oneLaunched"
    by (simp add: launchState_def NewWeighted_def Acquire_def oneLaunched_def)
  with reachable.Start [of 1 2] show ?thesis by (rule reachable.Next)
qed

section \<open>The claims\<close>

text \<open>
  Claim C1. With a limit \<open>L \<ge> 1\<close>, in every state the concurrent phase can reach, the
  requests that hold a permit are at most \<open>L\<close>, and the semaphore counts exactly them.
\<close>

theorem permits_never_exceed_limit:
  assumes "1 \<le> L" and "reachable L it s"
  shows "int (card (outstanding s)) \<le> L \<and> held (sem s) = int (card (outstanding s))"
proof -
  have "0 \<le> L" using assms(1) by simp
  from reachable_permits [OF this assms(2)] show ?thesis by (simp add: outstanding_def)
qed

theorem permits_never_exceed_limit_witness:
  "(1::int) \<le> 1 \<and> reachable 1 2 oneLaunched
   \<and> int (card (outstanding oneLaunched)) \<le> 1 \<and> card (outstanding oneLaunched) = 1"
proof -
  have h: "(1::int) \<le> 1" by simp
  have "card (outstanding oneLaunched) = 1" by (simp add: outstanding_def oneLaunched_def)
  then show ?thesis
    using permits_never_exceed_limit [OF h oneLaunched_reachable] oneLaunched_reachable by simp
qed

text \<open>
  Claim C2. With \<open>splits = s \<ge> 1\<close> a request returns normally and its trace is: a CPU
  slice, then \<open>s\<close> times a network slice followed by a CPU slice. These are \<open>2s + 1\<close>
  phases; every CPU slice lasts \<^verbatim>\<open>workTime/time.Duration(splits+1)\<close> and every network
  slice \<^verbatim>\<open>networkTime/time.Duration(splits)\<close>, Go's quotients. The network quotient
  is the truncated quotient of the integers, and so is the CPU quotient unless \<open>splits + 1\<close>
  wraps around.
\<close>

theorem doWork_alternates:
  assumes "1 \<le> sint s"
  shows "\<exists>tr. doWork w n s name sb = Inr (sb @ tr)
    \<and> tr = cpuLines name (goQuo w (s + 1)) @
             concat (replicate (nat (sint s))
               (netLines name (goQuo n s) @ cpuLines name (goQuo w (s + 1))))
    \<and> phasesOf tr = CpuSlice (goQuo w (s + 1)) #
             concat (replicate (nat (sint s)) [NetSlice (goQuo n s), CpuSlice (goQuo w (s + 1))])
    \<and> length (phasesOf tr) = 2 * nat (sint s) + 1
    \<and> sint (goQuo n s) = sint n sdiv sint s
    \<and> (sint s < 2 ^ 63 - 1 \<longrightarrow> sint (goQuo w (s + 1)) = sint w sdiv (sint s + 1))"
proof -
  let ?tr = "cpuLines name (goQuo w (s + 1)) @
             concat (replicate (nat (sint s))
               (netLines name (goQuo n s) @ cpuLines name (goQuo w (s + 1))))"
  have run: "doWork w n s name sb = Inr (sb @ ?tr)"
    using assms by (intro doWork_trace) simp
  have ph: "phasesOf ?tr = CpuSlice (goQuo w (s + 1)) #
             concat (replicate (nat (sint s)) [NetSlice (goQuo n s), CpuSlice (goQuo w (s + 1))])"
    by (rule phasesOf_doWork_trace)
  have len: "length (phasesOf ?tr) = 2 * nat (sint s) + 1"
    by (simp add: ph length_rounds)
  have nq: "sint (goQuo n s) = sint n sdiv sint s"
    using assms by (rule sint_goQuo_pos)
  have cq: "sint s < 2 ^ 63 - 1 \<longrightarrow> sint (goQuo w (s + 1)) = sint w sdiv (sint s + 1)"
  proof
    assume "sint s < 2 ^ 63 - 1"
    then have "sint (s + 1) = sint s + 1" by (rule sint_succ_64)
    then show "sint (goQuo w (s + 1)) = sint w sdiv (sint s + 1)"
      using sint_goQuo_pos [of "s + 1" w] assms by simp
  qed
  show ?thesis using run ph len nq cq by blast
qed

theorem doWork_alternates_witness:
  "1 \<le> sint (2 :: 64 word) \<and> sint (2 :: 64 word) < 2 ^ 63 - 1
   \<and> doWork 5000000 55000000 2 ''Request 0'' [] =
       Inr (cpuLines ''Request 0'' 1666666 @ netLines ''Request 0'' 27500000 @
            cpuLines ''Request 0'' 1666666 @ netLines ''Request 0'' 27500000 @
            cpuLines ''Request 0'' 1666666)
   \<and> length (phasesOf (cpuLines ''Request 0'' 1666666 @ netLines ''Request 0'' 27500000 @
            cpuLines ''Request 0'' 1666666 @ netLines ''Request 0'' 27500000 @
            cpuLines ''Request 0'' 1666666)) = 5"
proof -
  have h: "1 \<le> sint (2 :: 64 word)" by simp
  have q1: "goQuo 5000000 3 = 1666666" by (simp add: goQuo_def signed_divide_int_def)
  have q2: "goQuo 55000000 2 = 27500000" by (simp add: goQuo_def signed_divide_int_def)
  show ?thesis
    using doWork_alternates [OF h, of 5000000 55000000 "''Request 0''" "[]"]
    by (simp add: q1 q2 numeral_2_eq_2)
qed

text \<open>
  Claim C5, amended. Whatever \<^verbatim>\<open>stats.Percentile\<close> answers, the accessor returns the value
  part of the answer and drops the error part; it raises nothing, on an empty sequence of
  latencies as on any other.
\<close>

theorem percentile_error_discarded:
  assumes "Percentile (ResponseTimesMs b) pct = (val, err)"
  shows "ResponseTimesPercentile Percentile b pct = val"
  using assms by (simp add: ResponseTimesPercentile_def)

theorem percentile_error_discarded_witness:
  "emptyRejectingPercentile (ResponseTimesMs noLatencies) 50 = (0, Some InsufficientData)
   \<and> ResponseTimesPercentile emptyRejectingPercentile noLatencies 50 = 0"
proof -
  have h: "emptyRejectingPercentile (ResponseTimesMs noLatencies) 50 = (0, Some InsufficientData)"
    by (simp add: noLatencies_def)
  show ?thesis
    using percentile_error_discarded
      [of emptyRejectingPercentile noLatencies 50 0 "Some InsufficientData"] h
    by simp
qed

text \<open>
  On an empty sequence, with a routine that reports \<open>InsufficientData\<close>, the accessor
  returns a number.
\<close>

theorem percentile_error_discarded_counterexample:
  "ResponseTimesMs noLatencies = []
   \<and> snd (emptyRejectingPercentile [] 50) = Some InsufficientData
   \<and> ResponseTimesPercentile emptyRejectingPercentile noLatencies 50 = 0"
  by (simp add: ResponseTimesPercentile_def noLatencies_def)









text \<open>
  Claim C9. With \<open>splits = 0\<close> a request runs one CPU phase of the whole \<open>workTime\<close>
  and no network phase: the trace gains the two lines of that phase and nothing else. The
  call returns normally, although \<open>networkTime / splits\<close> would panic if it were
  evaluated.
\<close>

theorem doWork_without_splits:
  "doWork w n 0 name sb = Inr (sb @ cpuLines name w)
   \<and> phasesOf (cpuLines name w) = [CpuSlice w]
   \<and> goDiv n 0 = Inl IntegerDivideByZero"
proof -
  have "goQuo w 1 = w" by (simp add: goQuo_def)
  then have "doWork w n 0 name sb = Inr (sb @ cpuLines name w)"
    using doWork_trace [of 0 w n name sb] by simp
  then show ?thesis by (simp add: phasesOf_cpuLines goDiv_def)
qed

text \<open>
  Claim C10, amended. For non-negative \<open>workTime\<close>, \<open>networkTime\<close> and \<open>splits = s\<close>
  every CPU slice lasts \<open>workTime div (s + 1)\<close> and, for \<open>s \<ge> 1\<close>, every network slice
  \<open>networkTime div s\<close>, rounded down. The CPU phases are asked to last
  \<open>(s + 1) * (workTime div (s + 1))\<close> together, which is less than \<open>workTime\<close> whenever
  \<open>s + 1\<close> does not divide it, and the network phases \<open>s * (networkTime div s)\<close>, which is
  less than \<open>networkTime\<close> whenever \<open>s\<close> does not divide it.
\<close>

theorem slices_truncate:
  assumes "0 \<le> sint w" and "0 \<le> sint n" and "0 \<le> sint s"
  shows "\<exists>tr. doWork w n s name sb = Inr (sb @ tr)
    \<and> phasesOf tr = CpuSlice (goQuo w (s + 1)) #
          concat (replicate (nat (sint s)) [NetSlice (goQuo n s), CpuSlice (goQuo w (s + 1))])
    \<and> sint (goQuo w (s + 1)) = sint w div (sint s + 1)
    \<and> (1 \<le> sint s \<longrightarrow> sint (goQuo n s) = sint n div sint s)
    \<and> commandedCpu (phasesOf tr) = (sint s + 1) * (sint w div (sint s + 1))
    \<and> commandedNet (phasesOf tr) = sint s * (sint n div sint s)
    \<and> (\<not> (sint s + 1) dvd sint w \<longrightarrow> commandedCpu (phasesOf tr) < sint w)
    \<and> (\<not> sint s dvd sint n \<longrightarrow> commandedNet (phasesOf tr) < sint n)"
proof -
  let ?cd = "goQuo w (s + 1)" and ?nd = "goQuo n s" and ?k = "nat (sint s)"
  let ?tr = "cpuLines name ?cd @ concat (replicate ?k (netLines name ?nd @ cpuLines name ?cd))"
  have run: "doWork w n s name sb = Inr (sb @ ?tr)"
    using assms(3) by (rule doWork_trace)
  have ph: "phasesOf ?tr = CpuSlice ?cd # concat (replicate ?k [NetSlice ?nd, CpuSlice ?cd])"
    by (rule phasesOf_doWork_trace)
  have cq: "sint ?cd = sint w div (sint s + 1)"
    using assms(1,3) by (rule sint_cpu_goQuo)
  have nq: "1 \<le> sint s \<longrightarrow> sint ?nd = sint n div sint s"
    using assms(2) by (simp add: sint_net_goQuo)
  have k: "int ?k = sint s" using assms(3) by simp
  have "commandedCpu (phasesOf ?tr) = sint ?cd + int ?k * sint ?cd"
    by (simp only: ph commandedCpu.simps commandedCpu_rounds)
  then have cpu: "commandedCpu (phasesOf ?tr) = (sint s + 1) * (sint w div (sint s + 1))"
    by (simp only: k cq) (simp add: algebra_simps)
  have net0: "commandedNet (phasesOf ?tr) = int ?k * sint ?nd"
    by (simp only: ph commandedNet.simps commandedNet_rounds)
  have net: "commandedNet (phasesOf ?tr) = sint s * (sint n div sint s)"
  proof (cases "1 \<le> sint s")
    case True
    with nq show ?thesis by (simp add: net0 k)
  next
    case False
    with assms(3) have "sint s = 0" by simp
    then show ?thesis using net0 by simp
  qed
  have cpu_lt: "\<not> (sint s + 1) dvd sint w \<longrightarrow> commandedCpu (phasesOf ?tr) < sint w"
    using assms(3) by (simp only: cpu) (simp add: floor_product_less)
  have net_lt: "\<not> sint s dvd sint n \<longrightarrow> commandedNet (phasesOf ?tr) < sint n"
  proof (cases "1 \<le> sint s")
    case True
    then show ?thesis by (simp only: net) (simp add: floor_product_less)
  next
    case False
    with assms(3) have "sint s = 0" by simp
    then show ?thesis using assms(2) net by auto
  qed
  show ?thesis using run ph cq nq cpu net cpu_lt net_lt by blast
qed

theorem slices_truncate_witness:
  "0 \<le> sint (5000000 :: 64 word) \<and> 0 \<le> sint (55000000 :: 64 word) \<and> 1 \<le> sint (2 :: 64 word)
   \<and> \<not> (sint (2 :: 64 word) + 1) dvd sint (5000000 :: 64 word)
   \<and> \<not> sint (3 :: 64 word) dvd sint (55000000 :: 64 word)
   \<and> (\<exists>tr. doWork 5000000 55000000 2 ''Request 0'' [] = Inr tr
          \<and> commandedCpu (phasesOf tr) = 4999998 \<and> commandedCpu (phasesOf tr) < 5000000)
   \<and> (\<exists>tr. doWork 5000000 55000000 3 ''Request 0'' [] = Inr tr
          \<and> commandedNet (phasesOf tr) = 54999999 \<and> commandedNet (phasesOf tr) < 55000000)"
proof -
  have w: "0 \<le> sint (5000000 :: 64 word)" and n: "0 \<le> sint (55000000 :: 64 word)"
    and s2: "0 \<le> sint (2 :: 64 word)" and s3: "0 \<le> sint (3 :: 64 word)" by simp_all
  have a: "\<exists>tr. doWork 5000000 55000000 2 ''Request 0'' [] = Inr tr
          \<and> commandedCpu (phasesOf tr) = 4999998 \<and> commandedCpu (phasesOf tr) < 5000000"
    using slices_truncate [OF w n s2, of "''Request 0''" "[]"] by auto
  have b: "\<exists>tr. doWork 5000000 55000000 3 ''Request 0'' [] = Inr tr
          \<and> commandedNet (phasesOf tr) = 54999999 \<and> commandedNet (phasesOf tr) < 55000000"
    using slices_truncate [OF w n s3, of "''Request 0''" "[]"] by auto
  show ?thesis using a b by simp
qed

text \<open>
  The claim as first stated also covers negative durations, where Go's quotient rounds
  towards zero, not down: with \<open>workTime = -3\<close> and one split each CPU slice is \<open>-1\<close>, not
  \<open>-2\<close>, and the two slices sum to \<open>-2\<close>, which is not less than \<open>-3\<close>.
\<close>

theorem slices_truncate_counterexample:
  "doWork (- 3) 0 1 ''Request 0'' [] =
     Inr (cpuLines ''Request 0'' (- 1) @ netLines ''Request 0'' 0 @ cpuLines ''Request 0'' (- 1))
   \<and> phasesOf (cpuLines ''Request 0'' (- 1) @ netLines ''Request 0'' 0 @ cpuLines ''Request 0'' (- 1))
       = [CpuSlice (- 1), NetSlice 0, CpuSlice (- 1)]
   \<and> sint (- 1 :: 64 word) \<noteq> sint (- 3 :: 64 word) div (sint (1 :: 64 word) + 1)
   \<and> \<not> (sint (1 :: 64 word) + 1) dvd sint (- 3 :: 64 word)
   \<and> \<not> commandedCpu [CpuSlice (- 1), NetSlice 0, CpuSlice (- 1)] < sint (- 3 :: 64 word)"
  by (simp add: doWork_def goDiv_def goQuo_def signed_divide_int_def doWorkLoop.simps
      doCpuWork_lines doNetworkWork_lines word_sless_alt phasesOf_append phasesOf_cpuLines
      phasesOf_netLines)

end
